theory Spec2Isabelle
  imports Main "HOL-Library.Word" "HOL-Library.Sublist"
begin

unbundle bit_operations_syntax

section \<open>ProcMonUI: the process model\<close>

text \<open>
  A shallow embedding of the core of \<^verbatim>\<open>src/ProcMonUI.cpp\<close>: the process snapshot, the
  parent-to-children index with its recursive subtree collection, the text filter, the
  three per-process actions and the batch action \<^verbatim>\<open>ActOnSelection\<close>.

  \<^verbatim>\<open>DWORD\<close> is an unsigned 32-bit integer, \<^verbatim>\<open>wchar_t\<close> a 16-bit code unit, a
  \<^verbatim>\<open>std::wstring\<close> a list of code units, \<^verbatim>\<open>SIZE_T\<close> an unsigned 64-bit integer and
  \<^verbatim>\<open>LONG\<close> a 32-bit integer (only compared with 0 here).
\<close>

type_synonym DWORD = "32 word"
type_synonym wchar_t = "16 word"
type_synonym wstring = "wchar_t list"
type_synonym SIZE_T = "64 word"
type_synonym LONG = "32 word"

text \<open>\<^verbatim>\<open>struct Proc { DWORD pid{}, ppid{}; std::wstring name, path; SIZE_T rss{}; }\<close>\<close>

record Proc =
  pid :: DWORD
  ppid :: DWORD
  name :: wstring
  path :: wstring
  rss :: SIZE_T

section \<open>Small helpers: \<^verbatim>\<open>ToLower\<close> and \<^verbatim>\<open>IContains\<close>\<close>

text \<open>
  \<^verbatim>\<open>ToLower\<close> maps \<^verbatim>\<open>towlower\<close> over the string. \<^verbatim>\<open>towlower\<close> belongs to the C
  runtime and depends on the locale, so it is a parameter of the model.
\<close>

definition ToLower :: "(wchar_t \<Rightarrow> wchar_t) \<Rightarrow> wstring \<Rightarrow> wstring" where
  "ToLower towlower s = map towlower s"

text \<open>
  \<^verbatim>\<open>std::wstring::find(needle)\<close> from position 0: the least index at which
  \<^verbatim>\<open>needle\<close> starts in the string, or \<^verbatim>\<open>npos\<close> (here \<open>None\<close>). The empty needle is
  found at index 0, also in the empty string.
\<close>

fun find_from :: "'a list \<Rightarrow> 'a list \<Rightarrow> nat \<Rightarrow> nat option" where
  "find_from [] needle i = (if needle = [] then Some i else None)"
| "find_from (h # hs) needle i =
     (if prefix needle (h # hs) then Some i else find_from hs needle (Suc i))"

definition wstring_find :: "wstring \<Rightarrow> wstring \<Rightarrow> nat option" where
  "wstring_find hay needle = find_from hay needle 0"

definition IContains :: "(wchar_t \<Rightarrow> wchar_t) \<Rightarrow> wstring \<Rightarrow> wstring \<Rightarrow> bool" where
  "IContains towlower hay needle \<longleftrightarrow>
     wstring_find (ToLower towlower hay) (ToLower towlower needle) \<noteq> None"

text \<open>
  One instance of \<^verbatim>\<open>towlower\<close> for concrete runs: the "C" locale on the code units of
  ASCII, \<^verbatim>\<open>A\<close> .. \<^verbatim>\<open>Z\<close> to \<^verbatim>\<open>a\<close> .. \<^verbatim>\<open>z\<close> and every other unit unchanged.
\<close>

definition towlower_ascii :: "wchar_t \<Rightarrow> wchar_t" where
  "towlower_ascii c = (if 0x41 \<le> c \<and> c \<le> 0x5A then c + 0x20 else c)"

section \<open>The operating system as seen by the program\<close>

text \<open>
  The Win32 calls the core makes. The world is the log of the calls made so far, and
  what a call returns is decided by an environment from that log and the call's
  arguments: any operating system that answers deterministically given the history is an
  instance. A handle is named by what it was opened on.
\<close>

datatype HANDLE = SnapshotHandle | ProcessHandle DWORD

datatype syscall =
    CreateToolhelp32Snapshot
  | OpenProcess DWORD DWORD
  | QueryFullProcessImageNameW HANDLE
  | GetProcessMemoryInfo HANDLE
  | TerminateProcess HANDLE DWORD
  | NtSuspendProcess HANDLE
  | NtResumeProcess HANDLE
  | CloseHandle HANDLE

text \<open>The fields of \<^verbatim>\<open>PROCESSENTRY32W\<close> that \<^verbatim>\<open>Snapshot\<close> reads.\<close>

record PROCESSENTRY32W =
  th32ProcessID :: DWORD
  th32ParentProcessID :: DWORD
  szExeFile :: wstring

text \<open>
  \<^item> \<open>toolhelp_snapshot\<close>: \<open>None\<close> when \<^verbatim>\<open>CreateToolhelp32Snapshot\<close> returns
    \<^verbatim>\<open>INVALID_HANDLE_VALUE\<close>, otherwise the entries that \<^verbatim>\<open>Process32FirstW\<close> and
    \<^verbatim>\<open>Process32NextW\<close> walk through (the snapshot is a fixed finite list; the empty
    list when \<^verbatim>\<open>Process32FirstW\<close> fails);
  \<^item> \<open>open_process\<close>: whether \<^verbatim>\<open>OpenProcess(access, FALSE, pid)\<close> returns a handle;
  \<^item> \<open>query_image_name\<close>: the path \<^verbatim>\<open>QueryFullProcessImageNameW\<close> writes, \<open>None\<close>
    when it fails;
  \<^item> \<open>process_memory\<close>: \<^verbatim>\<open>WorkingSetSize\<close> from \<^verbatim>\<open>GetProcessMemoryInfo\<close>,
    \<open>None\<close> when it fails;
  \<^item> \<open>terminate_process\<close>: whether \<^verbatim>\<open>TerminateProcess(h, 1)\<close> returns non-zero;
  \<^item> \<open>ntdll\<close>: \<open>None\<close> when \<^verbatim>\<open>GetModuleHandleW(L"ntdll.dll")\<close> is null, otherwise
    \<^verbatim>\<open>GetProcAddress\<close> on that module, from an export's name to the function behind
    it (a function from the log and the handle's process to an \<^verbatim>\<open>NTSTATUS\<close>).
\<close>

type_synonym nt_function = "syscall list \<Rightarrow> DWORD \<Rightarrow> LONG"

record os_env =
  toolhelp_snapshot :: "syscall list \<Rightarrow> PROCESSENTRY32W list option"
  open_process :: "syscall list \<Rightarrow> DWORD \<Rightarrow> DWORD \<Rightarrow> bool"
  query_image_name :: "syscall list \<Rightarrow> DWORD \<Rightarrow> wstring option"
  process_memory :: "syscall list \<Rightarrow> DWORD \<Rightarrow> SIZE_T option"
  terminate_process :: "syscall list \<Rightarrow> DWORD \<Rightarrow> bool"
  ntdll :: "(string \<Rightarrow> nt_function option) option"

text \<open>
  Access rights. \<^verbatim>\<open>PROCESS_SUSPEND_RESUME\<close> is defined in the source; the other three
  are the values of the Windows headers.
\<close>

definition PROCESS_TERMINATE :: DWORD where "PROCESS_TERMINATE = 0x0001"
definition PROCESS_VM_READ :: DWORD where "PROCESS_VM_READ = 0x0010"
definition PROCESS_QUERY_INFORMATION :: DWORD where "PROCESS_QUERY_INFORMATION = 0x0400"
definition PROCESS_SUSPEND_RESUME :: DWORD where "PROCESS_SUSPEND_RESUME = 0x0800"

section \<open>\<^verbatim>\<open>LoadNtFunctions\<close> and the two function pointers\<close>

text \<open>
  The globals \<^verbatim>\<open>pNtSuspendProcess\<close> and \<^verbatim>\<open>pNtResumeProcess\<close>, both
  \<^verbatim>\<open>nullptr\<close> (\<open>None\<close>) until \<^verbatim>\<open>LoadNtFunctions\<close> runs at \<^verbatim>\<open>WM_CREATE\<close>.
\<close>

record nt_pointers =
  pNtSuspendProcess :: "nt_function option"
  pNtResumeProcess :: "nt_function option"

definition nt_pointers_init :: nt_pointers where
  "nt_pointers_init = \<lparr>pNtSuspendProcess = None, pNtResumeProcess = None\<rparr>"

definition LoadNtFunctions :: "os_env \<Rightarrow> nt_pointers \<Rightarrow> nt_pointers" where
  "LoadNtFunctions env ptrs =
     (case ntdll env of
        None \<Rightarrow> ptrs
      | Some GetProcAddress \<Rightarrow>
          ptrs\<lparr>pNtSuspendProcess := GetProcAddress ''NtSuspendProcess'',
                pNtResumeProcess := GetProcAddress ''NtResumeProcess''\<rparr>)"

section \<open>\<^verbatim>\<open>Snapshot\<close>\<close>

text \<open>
  The second loop of \<^verbatim>\<open>Snapshot\<close>, for one record: nothing for pid 0; otherwise open
  the process and, when that gives a handle, query the path and the working set, each
  stored only when its call succeeds, and close the handle.
\<close>

definition enrich :: "os_env \<Rightarrow> Proc \<Rightarrow> syscall list \<Rightarrow> Proc \<times> syscall list" where
  "enrich env p tr =
     (if pid p = 0 then (p, tr)
      else
        let access = PROCESS_QUERY_INFORMATION OR PROCESS_VM_READ;
            tr1 = tr @ [OpenProcess access (pid p)]
        in if \<not> open_process env tr access (pid p) then (p, tr1)
           else
             let h = ProcessHandle (pid p);
                 p1 = (case query_image_name env tr1 (pid p) of
                         Some buf \<Rightarrow> p\<lparr>path := buf\<rparr>
                       | None \<Rightarrow> p);
                 tr2 = tr1 @ [QueryFullProcessImageNameW h];
                 p2 = (case process_memory env tr2 (pid p) of
                         Some ws \<Rightarrow> p1\<lparr>rss := ws\<rparr>
                       | None \<Rightarrow> p1);
                 tr3 = tr2 @ [GetProcessMemoryInfo h]
             in (p2, tr3 @ [CloseHandle h]))"

fun enrich_all :: "os_env \<Rightarrow> Proc list \<Rightarrow> syscall list \<Rightarrow> Proc list \<times> syscall list" where
  "enrich_all env [] tr = ([], tr)"
| "enrich_all env (p # ps) tr =
     (case enrich env p tr of
        (p', tr') \<Rightarrow> (case enrich_all env ps tr' of (ps', tr'') \<Rightarrow> (p' # ps', tr'')))"

text \<open>The record the first loop pushes for an entry: \<^verbatim>\<open>path\<close> empty, \<^verbatim>\<open>rss\<close> zero.\<close>

definition proc_of_entry :: "PROCESSENTRY32W \<Rightarrow> Proc" where
  "proc_of_entry pe =
     \<lparr>pid = th32ProcessID pe, ppid = th32ParentProcessID pe, name = szExeFile pe,
      path = [], rss = 0\<rparr>"

definition Snapshot :: "os_env \<Rightarrow> syscall list \<Rightarrow> Proc list \<times> syscall list" where
  "Snapshot env tr =
     (case toolhelp_snapshot env tr of
        None \<Rightarrow> ([], tr @ [CreateToolhelp32Snapshot])
      | Some entries \<Rightarrow>
          enrich_all env (map proc_of_entry entries)
            (tr @ [CreateToolhelp32Snapshot, CloseHandle SnapshotHandle]))"

section \<open>\<^verbatim>\<open>BuildChildren\<close> and \<^verbatim>\<open>CollectTree\<close>\<close>

text \<open>
  \<^verbatim>\<open>for (auto& p : v) m[p.ppid].push_back(p.pid)\<close>: \<^verbatim>\<open>m[k]\<close> inserts an empty vector
  when the key is new.
\<close>

definition BuildChildren :: "Proc list \<Rightarrow> (DWORD \<rightharpoonup> DWORD list)" where
  "BuildChildren v =
     fold (\<lambda>p m. m(ppid p \<mapsto> (case m (ppid p) of None \<Rightarrow> [] | Some cs \<Rightarrow> cs) @ [pid p]))
       v Map.empty"

text \<open>
  A range-based \<^verbatim>\<open>for\<close> whose body may not return: the body runs on each element in
  turn, threading the state, and the loop returns only if every run of the body does.
\<close>

primrec for_each :: "('a \<Rightarrow> 's \<Rightarrow> 's option) \<Rightarrow> 'a list \<Rightarrow> 's \<Rightarrow> 's option" where
  "for_each body [] s = Some s"
| "for_each body (x # xs) s = Option.bind (body x s) (for_each body xs)"

lemma for_each_mono [partial_function_mono]:
  assumes "\<And>x s. mono_option (\<lambda>f. B f x s)"
  shows "mono_option (\<lambda>f. for_each (B f) xs s)"
proof (induction xs arbitrary: s)
  case Nil
  show ?case by (simp add: option.const_mono)
next
  case (Cons x xs)
  show ?case
    unfolding for_each.simps
    by (rule bind_mono [OF assms Cons.IH])
qed

text \<open>
  \<^verbatim>\<open>CollectTree\<close> recurses with no bound and no record of the pids it has seen, so it
  is a partial function: \<open>None\<close> is the recursion that never returns. The third
  argument is the vector \<^verbatim>\<open>out\<close> on entry, the result is \<^verbatim>\<open>out\<close> on return.
\<close>

partial_function (option) CollectTree ::
  "DWORD \<Rightarrow> (DWORD \<rightharpoonup> DWORD list) \<Rightarrow> DWORD list \<Rightarrow> DWORD list option" where
  "CollectTree p ch out =
     (case ch p of
        None \<Rightarrow> Some (out @ [p])
      | Some cs \<Rightarrow> for_each (\<lambda>c acc. CollectTree c ch acc) cs (out @ [p]))"

section \<open>\<^verbatim>\<open>TerminatePid\<close>, \<^verbatim>\<open>SuspendPid\<close>, \<^verbatim>\<open>ResumePid\<close>\<close>

definition TerminatePid :: "os_env \<Rightarrow> DWORD \<Rightarrow> syscall list \<Rightarrow> bool \<times> syscall list" where
  "TerminatePid env p tr =
     (let tr1 = tr @ [OpenProcess PROCESS_TERMINATE p]
      in if \<not> open_process env tr PROCESS_TERMINATE p then (False, tr1)
         else
           let h = ProcessHandle p;
               ok = terminate_process env tr1 p;
               tr2 = tr1 @ [TerminateProcess h 1]
           in (ok, tr2 @ [CloseHandle h]))"

definition SuspendPid ::
  "os_env \<Rightarrow> nt_pointers \<Rightarrow> DWORD \<Rightarrow> syscall list \<Rightarrow> bool \<times> syscall list" where
  "SuspendPid env ptrs p tr =
     (case pNtSuspendProcess ptrs of
        None \<Rightarrow> (False, tr)
      | Some NtSuspend \<Rightarrow>
          let access = PROCESS_SUSPEND_RESUME OR PROCESS_QUERY_INFORMATION;
              tr1 = tr @ [OpenProcess access p]
          in if \<not> open_process env tr access p then (False, tr1)
             else
               let h = ProcessHandle p;
                   st = NtSuspend tr1 p;
                   tr2 = tr1 @ [NtSuspendProcess h]
               in (st = 0, tr2 @ [CloseHandle h]))"

definition ResumePid ::
  "os_env \<Rightarrow> nt_pointers \<Rightarrow> DWORD \<Rightarrow> syscall list \<Rightarrow> bool \<times> syscall list" where
  "ResumePid env ptrs p tr =
     (case pNtResumeProcess ptrs of
        None \<Rightarrow> (False, tr)
      | Some NtResume \<Rightarrow>
          let access = PROCESS_SUSPEND_RESUME OR PROCESS_QUERY_INFORMATION;
              tr1 = tr @ [OpenProcess access p]
          in if \<not> open_process env tr access p then (False, tr1)
             else
               let h = ProcessHandle p;
                   st = NtResume tr1 p;
                   tr2 = tr1 @ [NtResumeProcess h]
               in (st = 0, tr2 @ [CloseHandle h]))"

section \<open>The application state and \<^verbatim>\<open>ApplyFilter\<close>\<close>

text \<open>
  The fields of the global \<^verbatim>\<open>g\<close> that the core reads and writes (the window handles
  are left out). \<^verbatim>\<open>filter\<close> is \<open>filter_s\<close> here.
\<close>

record AppState =
  all :: "Proc list"
  filtered :: "Proc list"
  filter_s :: wstring

definition ApplyFilter :: "(wchar_t \<Rightarrow> wchar_t) \<Rightarrow> AppState \<Rightarrow> AppState" where
  "ApplyFilter towlower g =
     (if filter_s g = [] then g\<lparr>filtered := all g\<rparr>
      else g\<lparr>filtered :=
             filter (\<lambda>p. IContains towlower (name p) (filter_s g)
                        \<or> IContains towlower (path p) (filter_s g)) (all g)\<rparr>)"

section \<open>\<^verbatim>\<open>ActOnSelection\<close>\<close>

definition CurrentChildren :: "AppState \<Rightarrow> (DWORD \<rightharpoonup> DWORD list)" where
  "CurrentChildren g = BuildChildren (all g)"

text \<open>
  The vector \<^verbatim>\<open>victims\<close> before the action loop: every selected pid, or with the Tree
  box checked its \<^verbatim>\<open>CollectTree\<close>, appended in the order of the selection; then
  \<^verbatim>\<open>std::sort\<close> (unsigned order on \<^verbatim>\<open>DWORD\<close>), then \<^verbatim>\<open>std::unique\<close> with
  \<^verbatim>\<open>erase\<close>, which drops every element equal to its predecessor.
\<close>

definition collect_victims ::
  "(DWORD \<rightharpoonup> DWORD list) \<Rightarrow> bool \<Rightarrow> DWORD list \<Rightarrow> DWORD list option" where
  "collect_victims ch tree pids =
     for_each (\<lambda>p victims. if tree then CollectTree p ch victims else Some (victims @ [p]))
       pids []"

definition victims_of :: "AppState \<Rightarrow> bool \<Rightarrow> DWORD list \<Rightarrow> DWORD list option" where
  "victims_of g tree pids =
     map_option (\<lambda>victims. remdups_adj (sort victims))
       (collect_victims (CurrentChildren g) tree pids)"

text \<open>
  The body of the action loop for one victim: \<^verbatim>\<open>res\<close> stays \<^verbatim>\<open>false\<close> for an action
  other than 1, 2 or 3.
\<close>

definition act_on ::
  "os_env \<Rightarrow> nt_pointers \<Rightarrow> int \<Rightarrow> DWORD \<Rightarrow> syscall list \<Rightarrow> bool \<times> syscall list" where
  "act_on env ptrs action p tr =
     (if action = 1 then TerminatePid env p tr
      else if action = 2 then SuspendPid env ptrs p tr
      else if action = 3 then ResumePid env ptrs p tr
      else (False, tr))"

text \<open>
  The loop itself, over the victims in the order given (the caller passes them reversed:
  \<^verbatim>\<open>rbegin\<close> to \<^verbatim>\<open>rend\<close>). \<^verbatim>\<open>ok\<close> and \<^verbatim>\<open>fail\<close> are 32-bit \<^verbatim>\<open>int\<close> counters.
\<close>

fun act_loop ::
  "os_env \<Rightarrow> nt_pointers \<Rightarrow> int \<Rightarrow> DWORD list \<Rightarrow> 32 word \<times> 32 word \<times> syscall list
     \<Rightarrow> 32 word \<times> 32 word \<times> syscall list" where
  "act_loop env ptrs action [] (ok, fail, tr) = (ok, fail, tr)"
| "act_loop env ptrs action (p # ps) (ok, fail, tr) =
     (case act_on env ptrs action p tr of
        (res, tr') \<Rightarrow>
          if res then act_loop env ptrs action ps (ok + 1, fail, tr')
          else act_loop env ptrs action ps (ok, fail + 1, tr'))"

text \<open>
  What \<^verbatim>\<open>ActOnSelection\<close> shows the user: the box "Select one or more rows first.", or
  the box "OK=<ok> FAIL=<fail>".
\<close>

datatype message_box = SelectRowsFirst | ActionResult "32 word" "32 word"

text \<open>
  \<^verbatim>\<open>ActOnSelection(action)\<close>. The rows selected in the list view
  (\<^verbatim>\<open>GetSelectedPids\<close>) and the state of the Tree box are arguments. The result is
  the message box shown and the log of system calls, or \<open>None\<close> when the collection of
  a subtree does not return.
\<close>

definition ActOnSelection ::
  "os_env \<Rightarrow> nt_pointers \<Rightarrow> AppState \<Rightarrow> int \<Rightarrow> DWORD list \<Rightarrow> bool \<Rightarrow> syscall list
     \<Rightarrow> (message_box \<times> syscall list) option" where
  "ActOnSelection env ptrs g action pids tree tr =
     (if pids = [] then Some (SelectRowsFirst, tr)
      else
        case victims_of g tree pids of
          None \<Rightarrow> None
        | Some victims \<Rightarrow>
            (case act_loop env ptrs action (rev victims) (0, 0, tr) of
               (ok, fail, tr') \<Rightarrow> Some (ActionResult ok fail, tr')))"

text \<open>The pids of the \<^verbatim>\<open>OpenProcess\<close> calls in a log, in the order of the calls.\<close>

fun opened_pids :: "syscall list \<Rightarrow> DWORD list" where
  "opened_pids [] = []"
| "opened_pids (OpenProcess access p # tr) = p # opened_pids tr"
| "opened_pids (_ # tr) = opened_pids tr"

section \<open>Notions used in the statements, and sample data\<close>

text \<open>
  The pids of the records of a snapshot whose parent pid is \<open>k\<close>, in the order of the
  snapshot: what \<^verbatim>\<open>BuildChildren\<close> collects under the key \<open>k\<close>.
\<close>

definition children_of :: "Proc list \<Rightarrow> DWORD \<Rightarrow> DWORD list" where
  "children_of v k = map pid (filter (\<lambda>p. ppid p = k) v)"

text \<open>
  The parent links of a snapshot: the pairs of a pid and the parent pid of one of its
  records.
\<close>

definition parent_links :: "Proc list \<Rightarrow> (DWORD \<times> DWORD) set" where
  "parent_links v = (\<lambda>p. (pid p, ppid p)) ` set v"

text \<open>
  \<open>ys\<close> is the subtree of \<open>p\<close>: \<^verbatim>\<open>CollectTree\<close> from \<open>p\<close> appends \<open>ys\<close> to
  \<^verbatim>\<open>out\<close>, \<open>ys\<close> has no pid twice, and its pids are those that reach \<open>p\<close> along
  parent links (\<open>p\<close> itself among them).
\<close>

definition subtree_of ::
  "Proc list \<Rightarrow> DWORD \<Rightarrow> DWORD list \<Rightarrow> bool" where
  "subtree_of v p ys \<longleftrightarrow>
     (\<forall>out. CollectTree p (BuildChildren v) out = Some (out @ ys)) \<and>
     distinct ys \<and> set ys = {d. (d, p) \<in> (parent_links v)\<^sup>*}"

text \<open>
  The actions whose loop body calls \<^verbatim>\<open>OpenProcess\<close>: Kill (1), and Suspend (2) and
  Resume (3) when their function pointer is not null.
\<close>

definition reaches_os :: "nt_pointers \<Rightarrow> int \<Rightarrow> bool" where
  "reaches_os ptrs action \<longleftrightarrow>
     action = 1 \<or> (action = 2 \<and> pNtSuspendProcess ptrs \<noteq> None)
       \<or> (action = 3 \<and> pNtResumeProcess ptrs \<noteq> None)"

text \<open>
  The specification's words for the filter, "the query occurs as a case-insensitive
  substring", with the lowercase fold as a parameter: the folded query stands somewhere
  inside the folded text.
\<close>

definition ci_substring_spec :: "(wchar_t \<Rightarrow> wchar_t) \<Rightarrow> wstring \<Rightarrow> wstring \<Rightarrow> bool" where
  "ci_substring_spec lower q s \<longleftrightarrow> (\<exists>before after. map lower s = before @ map lower q @ after)"

text \<open>
  What \<^verbatim>\<open>Snapshot\<close> promises for the record \<open>p\<close> made from the entry \<open>pe\<close>: the
  pid, parent pid and name of the entry; the empty path and \<^verbatim>\<open>rss\<close> 0 when the
  process cannot be opened; the empty path when its path query fails, and \<^verbatim>\<open>rss\<close> 0
  when its memory query fails.
\<close>

definition degraded :: "os_env \<Rightarrow> PROCESSENTRY32W \<Rightarrow> Proc \<Rightarrow> bool" where
  "degraded env pe p \<longleftrightarrow>
     pid p = th32ProcessID pe \<and> ppid p = th32ParentProcessID pe \<and> name p = szExeFile pe \<and>
     ((\<forall>h. \<not> open_process env h (PROCESS_QUERY_INFORMATION OR PROCESS_VM_READ) (th32ProcessID pe))
        \<longrightarrow> path p = [] \<and> rss p = 0) \<and>
     ((\<forall>h. query_image_name env h (th32ProcessID pe) = None) \<longrightarrow> path p = []) \<and>
     ((\<forall>h. process_memory env h (th32ProcessID pe) = None) \<longrightarrow> rss p = 0)"

text \<open>
  Sample data. A record with a pid and a parent pid, and nothing else of interest.
\<close>

definition proc :: "DWORD \<Rightarrow> DWORD \<Rightarrow> Proc" where
  "proc i parent = \<lparr>pid = i, ppid = parent, name = [], path = [], rss = 0\<rparr>"

text \<open>
  The snapshot A \<rightarrow> [B, C], B \<rightarrow> [D], with pids A = 1, B = 2, C = 3, D = 4; the parent of
  A, pid 0, is not in the snapshot.
\<close>

definition tree_ABCD :: "Proc list" where
  "tree_ABCD = [proc 1 0, proc 2 1, proc 3 1, proc 4 2]"

text \<open>
  A snapshot of one process that is its own parent, as the idle process (pid 0, parent
  pid 0) is in a ToolHelp snapshot.
\<close>

definition idle_only :: "Proc list" where
  "idle_only = [proc 0 0]"

text \<open>
  The children recorded in the index for \<open>p\<close>, in the order recorded; none when \<open>p\<close>
  is not a key.
\<close>

definition bucket :: "(DWORD \<rightharpoonup> DWORD list) \<Rightarrow> DWORD \<Rightarrow> DWORD list" where
  "bucket ch p = (case ch p of None \<Rightarrow> [] | Some cs \<Rightarrow> cs)"

text \<open>
  The child links of an index: the pairs of a pid in a bucket and the key of the bucket.
\<close>

definition child_links :: "(DWORD \<rightharpoonup> DWORD list) \<Rightarrow> (DWORD \<times> DWORD) set" where
  "child_links ch = {(c, p). \<exists>cs. ch p = Some cs \<and> c \<in> set cs}"

text \<open>
  An operating system that refuses to open the pid \<open>d\<close> and grants every other call; it
  lists three processes (pids 0, 4 and 8) and has no \<^verbatim>\<open>ntdll.dll\<close>.
\<close>

definition env_deny :: "DWORD \<Rightarrow> os_env" where
  "env_deny d =
     \<lparr>toolhelp_snapshot = (\<lambda>tr. Some
         [\<lparr>th32ProcessID = 0, th32ParentProcessID = 0, szExeFile = [0x49]\<rparr>,
          \<lparr>th32ProcessID = 4, th32ParentProcessID = 0, szExeFile = [0x53]\<rparr>,
          \<lparr>th32ProcessID = 8, th32ParentProcessID = 4, szExeFile = [0x41]\<rparr>]),
      open_process = (\<lambda>tr access p. p \<noteq> d),
      query_image_name = (\<lambda>tr p. Some [0x43, 0x3A]),
      process_memory = (\<lambda>tr p. Some 4096),
      terminate_process = (\<lambda>tr p. True),
      ntdll = None\<rparr>"

text \<open>
  The application state after a refresh that found the snapshot \<open>v\<close>, with an empty
  search box.
\<close>

definition state_of :: "Proc list \<Rightarrow> AppState" where
  "state_of v = \<lparr>all = v, filtered = v, filter_s = []\<rparr>"





text \<open>
  A record with a pid, a name and a path.
\<close>

definition named :: "DWORD \<Rightarrow> wstring \<Rightarrow> wstring \<Rightarrow> Proc" where
  "named i n pa = \<lparr>pid = i, ppid = 0, name = n, path = pa, rss = 0\<rparr>"

text \<open>
  Three processes named "Ab", "c" (with path "XaB") and "z", and the search text "aB".
\<close>

definition filter_demo :: AppState where
  "filter_demo =
     \<lparr>all = [named 1 [0x41, 0x62] [], named 2 [0x63] [0x58, 0x61, 0x42], named 3 [0x7A] []],
      filtered = [],
      filter_s = [0x61, 0x42]\<rparr>"

section \<open>The index and the recursion over it\<close>

lemma for_each_Some:
  assumes "\<And>x s. x \<in> set xs \<Longrightarrow> \<exists>s'. body x s = Some s'"
  shows "\<exists>s'. for_each body xs s = Some s'"
  using assms
proof (induction xs arbitrary: s)
  case Nil
  show ?case by simp
next
  case (Cons x xs)
  from Cons.prems [of x s] obtain s1 where s1: "body x s = Some s1" by auto
  from Cons.IH [of s1] Cons.prems obtain s2 where "for_each body xs s1 = Some s2" by auto
  with s1 show ?case by simp
qed

lemma fold_BuildChildren:
  "fold (\<lambda>p m. m(ppid p \<mapsto> (case m (ppid p) of None \<Rightarrow> [] | Some cs \<Rightarrow> cs) @ [pid p])) v m k =
     (if children_of v k = [] then m k
      else Some ((case m k of None \<Rightarrow> [] | Some cs \<Rightarrow> cs) @ children_of v k))"
  by (induction v arbitrary: m) (auto simp: children_of_def)

lemma BuildChildren_lookup:
  "BuildChildren v k = (if children_of v k = [] then None else Some (children_of v k))"
  by (simp add: BuildChildren_def fold_BuildChildren)

lemma set_children_of: "set (children_of v k) = {c. (c, k) \<in> parent_links v}"
  by (auto simp: children_of_def parent_links_def)

lemma finite_parent_links: "finite (parent_links v)"
  by (simp add: parent_links_def)

lemma CollectTree_no_bucket:
  "ch p = None \<Longrightarrow> CollectTree p ch out = Some (out @ [p])"
  by (subst CollectTree.simps) simp

lemma for_each_prefix:
  assumes "\<And>x s s'. x \<in> set xs \<Longrightarrow> body x s = Some s' \<Longrightarrow> \<exists>r. s' = s @ r"
    and "for_each body xs s = Some s'"
  shows "\<exists>r. s' = s @ r"
  using assms
proof (induction xs arbitrary: s)
  case Nil
  then show ?case by simp
next
  case (Cons x xs)
  from Cons.prems(2) obtain s1 where s1: "body x s = Some s1" and r: "for_each body xs s1 = Some s'"
    by (auto simp: bind_eq_Some_conv)
  have "x \<in> set (x # xs)" by simp
  from Cons.prems(1) [OF this s1] obtain r1 where r1: "s1 = s @ r1" by auto
  have "\<exists>r. s' = s1 @ r"
  proof (rule Cons.IH [OF _ r])
    fix y t t' assume "y \<in> set xs" and b: "body y t = Some t'"
    then have "y \<in> set (x # xs)" by simp
    from Cons.prems(1) [OF this b] show "\<exists>r. t' = t @ r" .
  qed
  then obtain r2 where "s' = s1 @ r2" by auto
  with r1 show ?case by simp
qed

lemma CollectTree_emits_root_first:
  assumes "CollectTree p ch out = Some ys"
  shows "\<exists>r. ys = out @ p # r"
proof (rule CollectTree.raw_induct [where P = "\<lambda>p ch out ys. \<exists>r. ys = out @ p # r", OF _ assms])
  fix CT :: "DWORD \<Rightarrow> (DWORD \<rightharpoonup> DWORD list) \<Rightarrow> DWORD list \<Rightarrow> DWORD list option"
  fix q c acc res
  assume IH: "\<And>q c acc res. CT q c acc = Some res \<Longrightarrow> \<exists>r. res = acc @ q # r"
    and eq: "(case c q of None \<Rightarrow> Some (acc @ [q])
              | Some cs \<Rightarrow> for_each (\<lambda>k. CT k c) cs (acc @ [q])) = Some res"
  show "\<exists>r. res = acc @ q # r"
  proof (cases "c q")
    case None
    with eq show ?thesis by auto
  next
    case (Some cs)
    with eq have fe: "for_each (\<lambda>k. CT k c) cs (acc @ [q]) = Some res" by simp
    have "\<exists>r. res = (acc @ [q]) @ r"
    proof (rule for_each_prefix [OF _ fe])
      fix x s s' assume "CT x c s = Some s'"
      from IH [OF this] obtain r where "s' = s @ x # r" by auto
      then show "\<exists>r. s' = s @ r" by simp
    qed
    then show ?thesis by auto
  qed
qed

lemma CollectTree_self_loop:
  assumes "CollectTree p ch out = Some ys"
  shows "ch 0 = Some [0] \<longrightarrow> p \<noteq> 0"
proof (rule CollectTree.raw_induct [where P = "\<lambda>p ch out ys. ch 0 = Some [0] \<longrightarrow> p \<noteq> 0", OF _ assms])
  fix CT :: "DWORD \<Rightarrow> (DWORD \<rightharpoonup> DWORD list) \<Rightarrow> DWORD list \<Rightarrow> DWORD list option"
  fix q c acc res
  assume IH: "\<And>q c acc res. CT q c acc = Some res \<Longrightarrow> c 0 = Some [0] \<longrightarrow> q \<noteq> 0"
    and eq: "(case c q of None \<Rightarrow> Some (acc @ [q])
              | Some cs \<Rightarrow> for_each (\<lambda>k. CT k c) cs (acc @ [q])) = Some res"
  show "c 0 = Some [0] \<longrightarrow> q \<noteq> 0"
  proof (intro impI notI)
    assume c0: "c 0 = Some [0]" and "q = 0"
    with eq have "CT 0 c (acc @ [0]) = Some res"
      by (simp add: bind_eq_Some_conv)
    from IH [OF this] c0 show False by simp
  qed
qed

subsection \<open>Snapshots that are trees\<close>

lemma ex_list_all2:
  "(\<And>x. x \<in> set xs \<Longrightarrow> \<exists>y. Q x y) \<Longrightarrow> \<exists>ys. list_all2 Q xs ys"
proof (induction xs)
  case Nil
  show ?case by simp
next
  case (Cons x xs)
  then obtain y ys where "Q x y" "list_all2 Q xs ys" by (meson list.set_intros)
  then have "list_all2 Q (x # xs) (y # ys)" by simp
  then show ?case ..
qed

lemma for_each_concat:
  "list_all2 (\<lambda>c s. \<forall>acc. body c acc = Some (acc @ s)) cs subs \<Longrightarrow>
     for_each body cs acc = Some (acc @ concat subs)"
proof (induction cs subs arbitrary: acc rule: list_all2_induct)
  case Nil
  show ?case by simp
next
  case (Cons c cs s subs)
  then show ?case by simp
qed

lemma set_concat_list_all2:
  "list_all2 (\<lambda>c s. set s = D c) cs subs \<Longrightarrow> set (concat subs) = (\<Union>c\<in>set cs. D c)"
  by (induction cs subs rule: list_all2_induct) auto

lemma distinct_concat_list_all2:
  assumes "list_all2 (\<lambda>c s. distinct s \<and> set s = D c) cs subs"
    and "distinct cs"
    and "\<And>c1 c2. c1 \<in> set cs \<Longrightarrow> c2 \<in> set cs \<Longrightarrow> c1 \<noteq> c2 \<Longrightarrow> D c1 \<inter> D c2 = {}"
  shows "distinct (concat subs)"
  using assms
proof (induction cs subs rule: list_all2_induct)
  case Nil
  show ?case by simp
next
  case (Cons c cs s subs)
  have rest: "distinct (concat subs)"
    using Cons.IH Cons.prems by simp
  have "list_all2 (\<lambda>c s. set s = D c) cs subs"
    using Cons.hyps(2) by (rule list_all2_mono) simp
  then have sc: "set (concat subs) = (\<Union>c\<in>set cs. D c)"
    by (rule set_concat_list_all2)
  have "D c \<inter> D c' = {}" if "c' \<in> set cs" for c'
    using Cons.prems(1) Cons.prems(2) [of c c'] that by auto
  then have "set s \<inter> set (concat subs) = {}"
    using Cons.hyps(1) sc by auto
  with rest Cons.hyps(1) show ?case by simp
qed

lemma descendants_unfold:
  "{d. (d, p) \<in> (parent_links v)\<^sup>*} =
     insert p (\<Union>c\<in>set (children_of v p). {d. (d, c) \<in> (parent_links v)\<^sup>*})"
proof (intro equalityI subsetI)
  fix d assume "d \<in> {d. (d, p) \<in> (parent_links v)\<^sup>*}"
  then have "(d, p) \<in> (parent_links v)\<^sup>*" by simp
  then show "d \<in> insert p (\<Union>c\<in>set (children_of v p). {d. (d, c) \<in> (parent_links v)\<^sup>*})"
    by (cases rule: rtrancl.cases) (auto simp: set_children_of)
next
  fix d assume "d \<in> insert p (\<Union>c\<in>set (children_of v p). {d. (d, c) \<in> (parent_links v)\<^sup>*})"
  then show "d \<in> {d. (d, p) \<in> (parent_links v)\<^sup>*}"
    by (auto simp: set_children_of intro: rtrancl_into_rtrancl)
qed

lemma root_not_below_child:
  assumes "acyclic (parent_links v)" and "c \<in> set (children_of v p)"
  shows "(p, c) \<notin> (parent_links v)\<^sup>*"
proof
  assume "(p, c) \<in> (parent_links v)\<^sup>*"
  moreover from assms(2) have "(c, p) \<in> parent_links v" by (simp add: set_children_of)
  ultimately have "(p, p) \<in> (parent_links v)\<^sup>+" by (rule rtrancl_into_trancl1)
  with assms(1) show False by (simp add: acyclic_def)
qed

lemma siblings_disjoint:
  assumes sv: "single_valued (parent_links v)" and ac: "acyclic (parent_links v)"
    and c1: "c1 \<in> set (children_of v p)" and c2: "c2 \<in> set (children_of v p)"
    and ne: "c1 \<noteq> c2"
  shows "{d. (d, c1) \<in> (parent_links v)\<^sup>*} \<inter> {d. (d, c2) \<in> (parent_links v)\<^sup>*} = {}"
proof -
  have step: "(a, b) \<notin> (parent_links v)\<^sup>*"
    if a: "a \<in> set (children_of v p)" and b: "b \<in> set (children_of v p)" and "a \<noteq> b" for a b
  proof
    assume "(a, b) \<in> (parent_links v)\<^sup>*"
    then obtain z where az: "(a, z) \<in> parent_links v" and zb: "(z, b) \<in> (parent_links v)\<^sup>*"
      using \<open>a \<noteq> b\<close> by (auto elim: converse_rtranclE)
    from a have "(a, p) \<in> parent_links v" by (simp add: set_children_of)
    with sv az have "z = p" by (auto dest: single_valuedD)
    with zb root_not_below_child [OF ac b] show False by simp
  qed
  show ?thesis
  proof (rule ccontr)
    assume "\<not> ?thesis"
    then obtain d where "(d, c1) \<in> (parent_links v)\<^sup>*" "(d, c2) \<in> (parent_links v)\<^sup>*" by auto
    with sv have "(c1, c2) \<in> (parent_links v)\<^sup>* \<or> (c2, c1) \<in> (parent_links v)\<^sup>*"
      by (rule single_valued_confluent)
    with step [OF c1 c2 ne] step [OF c2 c1] ne show False by auto
  qed
qed

lemma single_valued_parent_links:
  "distinct (map pid v) \<Longrightarrow> single_valued (parent_links v)"
  by (auto simp: single_valued_def parent_links_def distinct_map inj_on_def)

lemma distinct_children_of: "distinct (map pid v) \<Longrightarrow> distinct (children_of v k)"
  by (simp add: children_of_def distinct_map_filter)

lemma CollectTree_tree:
  assumes dv: "distinct (map pid v)" and ac: "acyclic (parent_links v)"
  shows "\<exists>subs. list_all2 (subtree_of v) (children_of v p) subs \<and> subtree_of v p (p # concat subs)"
proof -
  have wf: "wf (parent_links v)"
    using finite_parent_links ac by (rule finite_acyclic_wf)
  have sv: "single_valued (parent_links v)"
    using dv by (rule single_valued_parent_links)
  from wf show ?thesis
  proof (induction p rule: wf_induct_rule)
    case (less p)
    let ?ch = "BuildChildren v" and ?cs = "children_of v p" and ?R = "parent_links v"
    have "\<exists>s. subtree_of v c s" if "c \<in> set ?cs" for c
    proof -
      from that have "(c, p) \<in> ?R" by (simp add: set_children_of)
      from less.IH [OF this] show ?thesis by blast
    qed
    then obtain subs where subs: "list_all2 (subtree_of v) ?cs subs"
      using ex_list_all2 [of ?cs "subtree_of v"] by blast
    have run: "list_all2 (\<lambda>c s. \<forall>acc. CollectTree c ?ch acc = Some (acc @ s)) ?cs subs"
      using subs by (rule list_all2_mono) (simp add: subtree_of_def)
    have sets: "list_all2 (\<lambda>c s. set s = {d. (d, c) \<in> ?R\<^sup>*}) ?cs subs"
      using subs by (rule list_all2_mono) (simp add: subtree_of_def)
    have dists: "list_all2 (\<lambda>c s. distinct s \<and> set s = {d. (d, c) \<in> ?R\<^sup>*}) ?cs subs"
      using subs by (rule list_all2_mono) (simp add: subtree_of_def)
    have sc: "set (concat subs) = (\<Union>c\<in>set ?cs. {d. (d, c) \<in> ?R\<^sup>*})"
      using sets by (rule set_concat_list_all2)
    have ret: "CollectTree p ?ch out = Some (out @ p # concat subs)" for out
    proof (cases "?cs = []")
      case True
      with subs have "subs = []" by simp
      with True show ?thesis
        by (subst CollectTree.simps) (simp add: BuildChildren_lookup)
    next
      case False
      then show ?thesis
        using for_each_concat [OF run, of "out @ [p]"]
        by (subst CollectTree.simps) (simp add: BuildChildren_lookup)
    qed
    have dc: "distinct (concat subs)"
      using dists distinct_children_of [OF dv] siblings_disjoint [OF sv ac]
      by (rule distinct_concat_list_all2)
    have "p \<notin> set (concat subs)"
      unfolding sc using root_not_below_child [OF ac] by auto
    with dc have d: "distinct (p # concat subs)" by simp
    have s: "set (p # concat subs) = {d. (d, p) \<in> ?R\<^sup>*}"
      unfolding list.set sc by (rule descendants_unfold [symmetric])
    from ret d s have "subtree_of v p (p # concat subs)"
      by (simp add: subtree_of_def)
    with subs show ?case by blast
  qed
qed

section \<open>The victims and the action loop\<close>

lemma sorted_wrt_less_remdups_adj:
  "sorted xs \<Longrightarrow> sorted_wrt (<) (remdups_adj xs)"
  by (induction xs rule: remdups_adj.induct) (auto simp: less_le)

lemma victims_strictly_ascending:
  "sorted_wrt (<) (remdups_adj (sort (xs :: DWORD list)))"
  by (rule sorted_wrt_less_remdups_adj) simp

lemma victims_distinct: "distinct (remdups_adj (sort (xs :: DWORD list)))"
  using victims_strictly_ascending [of xs] by (simp add: strict_sorted_iff)


lemma opened_pids_append: "opened_pids (a @ b) = opened_pids a @ opened_pids b"
  by (induction a rule: opened_pids.induct) simp_all

lemma act_on_trace:
  "\<exists>ev. snd (act_on env ptrs action p tr) = tr @ ev \<and>
        opened_pids ev = (if reaches_os ptrs action then [p] else [])"
  by (auto simp: act_on_def TerminatePid_def SuspendPid_def ResumePid_def reaches_os_def Let_def
      split: option.splits)

lemma act_loop_result:
  "\<exists>k ev. k \<le> length ps \<and>
      act_loop env ptrs action ps (ok, fail, tr) =
        (ok + of_nat k, fail + of_nat (length ps - k), tr @ ev) \<and>
      opened_pids ev = (if reaches_os ptrs action then ps else [])"
proof (induction ps arbitrary: ok fail tr)
  case Nil
  show ?case by simp
next
  case (Cons p ps)
  obtain res tr1 where a: "act_on env ptrs action p tr = (res, tr1)" by (cases "act_on env ptrs action p tr")
  from act_on_trace [of env ptrs action p tr] a obtain ev1 where
    ev1: "tr1 = tr @ ev1" "opened_pids ev1 = (if reaches_os ptrs action then [p] else [])" by auto
  show ?case
  proof (cases res)
    case True
    from Cons.IH [of "ok + 1" fail tr1] obtain k ev where
      k: "k \<le> length ps"
      and r: "act_loop env ptrs action ps (ok + 1, fail, tr1) =
               (ok + 1 + of_nat k, fail + of_nat (length ps - k), tr1 @ ev)"
      and o: "opened_pids ev = (if reaches_os ptrs action then ps else [])" by blast
    have "Suc k \<le> length (p # ps)" using k by simp
    moreover have "act_loop env ptrs action (p # ps) (ok, fail, tr) =
        (ok + of_nat (Suc k), fail + of_nat (length (p # ps) - Suc k), tr @ (ev1 @ ev))"
      using a True r ev1 by (simp add: add.assoc)
    moreover have "opened_pids (ev1 @ ev) = (if reaches_os ptrs action then p # ps else [])"
      using ev1 o by (simp add: opened_pids_append)
    ultimately show ?thesis by blast
  next
    case False
    from Cons.IH [of ok "fail + 1" tr1] obtain k ev where
      k: "k \<le> length ps"
      and r: "act_loop env ptrs action ps (ok, fail + 1, tr1) =
               (ok + of_nat k, fail + 1 + of_nat (length ps - k), tr1 @ ev)"
      and o: "opened_pids ev = (if reaches_os ptrs action then ps else [])" by blast
    have "k \<le> length (p # ps)" using k by simp
    moreover have "act_loop env ptrs action (p # ps) (ok, fail, tr) =
        (ok + of_nat k, fail + of_nat (length (p # ps) - k), tr @ (ev1 @ ev))"
      using a False r ev1 k by (simp add: add.assoc Suc_diff_le)
    moreover have "opened_pids (ev1 @ ev) = (if reaches_os ptrs action then p # ps else [])"
      using ev1 o by (simp add: opened_pids_append)
    ultimately show ?thesis by blast
  qed
qed


section \<open>The filter\<close>

lemma find_from_None_iff: "find_from hay needle i = None \<longleftrightarrow> \<not> sublist needle hay"
  by (induction hay needle i rule: find_from.induct) (auto simp: sublist_Cons_right)

lemma IContains_iff: "IContains lower hay needle \<longleftrightarrow> ci_substring_spec lower needle hay"
  by (simp add: IContains_def wstring_find_def ToLower_def find_from_None_iff ci_substring_spec_def
      sublist_def)

lemma ci_substring_empty: "ci_substring_spec lower [] s"
  unfolding ci_substring_spec_def by (intro exI [of _ "[]"] exI [of _ "map lower s"]) simp

lemma ApplyFilter_filtered:
  "filtered (ApplyFilter lower g) =
     filter (\<lambda>p. ci_substring_spec lower (filter_s g) (name p) \<or>
                ci_substring_spec lower (filter_s g) (path p)) (all g)"
  by (simp add: ApplyFilter_def IContains_iff ci_substring_empty)

section \<open>The snapshot\<close>

lemma enrich_keeps: "pid (fst (enrich env p tr)) = pid p \<and> ppid (fst (enrich env p tr)) = ppid p
   \<and> name (fst (enrich env p tr)) = name p"
  by (simp add: enrich_def Let_def split: option.splits)

lemma enrich_denied:
  "\<forall>h. \<not> open_process env h (PROCESS_QUERY_INFORMATION OR PROCESS_VM_READ) (pid p) \<Longrightarrow>
     fst (enrich env p tr) = p"
  by (simp add: enrich_def Let_def)

lemma enrich_no_path:
  "\<forall>h. query_image_name env h (pid p) = None \<Longrightarrow> path (fst (enrich env p tr)) = path p"
  by (simp add: enrich_def Let_def split: option.splits)

lemma enrich_no_memory:
  "\<forall>h. process_memory env h (pid p) = None \<Longrightarrow> rss (fst (enrich env p tr)) = rss p"
  by (simp add: enrich_def Let_def split: option.splits)

lemma enrich_all_entries:
  "list_all2 (degraded env) entries (fst (enrich_all env (map proc_of_entry entries) tr))"
proof (induction entries arbitrary: tr)
  case Nil
  show ?case by simp
next
  case (Cons pe entries)
  obtain p' tr' where e: "enrich env (proc_of_entry pe) tr = (p', tr')"
    by (cases "enrich env (proc_of_entry pe) tr")
  obtain ps' tr'' where r: "enrich_all env (map proc_of_entry entries) tr' = (ps', tr'')"
    by (cases "enrich_all env (map proc_of_entry entries) tr'")
  have "degraded env pe p'"
    using enrich_keeps [of env "proc_of_entry pe" tr] enrich_denied [of env "proc_of_entry pe" tr]
      enrich_no_path [of env "proc_of_entry pe" tr] enrich_no_memory [of env "proc_of_entry pe" tr] e
    by (auto simp: degraded_def proc_of_entry_def)
  moreover have "list_all2 (degraded env) entries ps'"
    using Cons.IH [of tr'] r by simp
  ultimately show ?case using e r by simp
qed

lemma Snapshot_entries:
  "toolhelp_snapshot env tr = Some entries \<Longrightarrow>
     list_all2 (degraded env) entries (fst (Snapshot env tr))"
  by (simp add: Snapshot_def enrich_all_entries)

section \<open>Claims about the tree index\<close>

lemma bucket_BuildChildren: "bucket (BuildChildren v) p = children_of v p"
  by (simp add: bucket_def BuildChildren_lookup)

lemma acyclic_parent_links_rank:
  fixes rank :: "DWORD \<Rightarrow> nat"
  assumes "\<And>p. p \<in> set v \<Longrightarrow> rank (ppid p) < rank (pid p)"
  shows "acyclic (parent_links v)"
proof -
  have "parent_links v \<subseteq> (inv_image less_than rank)\<inverse>"
    using assms by (auto simp: parent_links_def)
  moreover have "acyclic ((inv_image less_than rank)\<inverse>)"
  proof -
    have "wf (inv_image less_than rank)" by simp
    then have "acyclic (inv_image less_than rank)" by (rule wf_acyclic)
    then show ?thesis by (simp only: acyclic_converse)
  qed
  ultimately show ?thesis by (rule acyclic_subset [rotated])
qed

lemma acyclic_tree_ABCD: "acyclic (parent_links tree_ABCD)"
  by (rule acyclic_parent_links_rank [where rank = unat]) (auto simp: tree_ABCD_def proc_def)

lemma BuildChildren_tree_ABCD:
  "BuildChildren tree_ABCD = [0 \<mapsto> [1], 1 \<mapsto> [2, 3], 2 \<mapsto> [4]]"
  by (simp add: BuildChildren_def tree_ABCD_def proc_def fun_upd_twist)

lemma CollectTree_tree_ABCD:
  "CollectTree 1 (BuildChildren tree_ABCD) out = Some (out @ [1, 2, 4, 3])"
  "CollectTree 2 (BuildChildren tree_ABCD) out = Some (out @ [2, 4])"
  by (simp_all add: BuildChildren_tree_ABCD CollectTree.simps [of 1] CollectTree.simps [of 2]
      CollectTree.simps [of 3] CollectTree.simps [of 4])

text \<open>
  Claim C2. When the pids of the snapshot are pairwise different and its parent links have
  no cycle, \<^verbatim>\<open>CollectTree\<close> from \<open>root\<close> returns \<open>root\<close> followed by the results of
  the children of \<open>root\<close>, one after the other in the order of the bucket of \<open>root\<close>
  in the index; the result has no pid twice, and its pids are \<open>root\<close> and every pid that
  reaches \<open>root\<close> along parent links.
\<close>

theorem CollectTree_depth_first:
  assumes "distinct (map pid v)" and "acyclic (parent_links v)"
  shows "\<exists>subs.
     list_all2 (\<lambda>c s. CollectTree c (BuildChildren v) [] = Some s)
       (bucket (BuildChildren v) root) subs \<and>
     CollectTree root (BuildChildren v) [] = Some (root # concat subs) \<and>
     distinct (root # concat subs) \<and>
     set (root # concat subs) = {d. (d, root) \<in> (parent_links v)\<^sup>*}"
proof -
  from CollectTree_tree [OF assms, of root] obtain subs where
    subs: "list_all2 (subtree_of v) (children_of v root) subs"
    and root: "subtree_of v root (root # concat subs)" by blast
  have "list_all2 (\<lambda>c s. CollectTree c (BuildChildren v) [] = Some s) (children_of v root) subs"
    using subs
  proof (rule list_all2_mono)
    fix c s assume "subtree_of v c s"
    then have "CollectTree c (BuildChildren v) [] = Some ([] @ s)"
      unfolding subtree_of_def by blast
    then show "CollectTree c (BuildChildren v) [] = Some s" by simp
  qed
  moreover have "CollectTree root (BuildChildren v) [] = Some ([] @ root # concat subs)"
    using root unfolding subtree_of_def by blast
  ultimately show ?thesis
    using root by (auto simp: subtree_of_def bucket_BuildChildren)
qed

text \<open>
  Claim C2, witness: on A \<rightarrow> [B, C], B \<rightarrow> [D] (pids 1 to 4), from A the result is
  A, B, D, C and from B it is B, D.
\<close>

theorem CollectTree_depth_first_witness:
  "distinct (map pid tree_ABCD) \<and> acyclic (parent_links tree_ABCD) \<and>
   (\<exists>subs.
     list_all2 (\<lambda>c s. CollectTree c (BuildChildren tree_ABCD) [] = Some s)
       (bucket (BuildChildren tree_ABCD) 1) subs \<and>
     CollectTree 1 (BuildChildren tree_ABCD) [] = Some (1 # concat subs) \<and>
     distinct (1 # concat subs) \<and>
     set (1 # concat subs) = {d. (d, 1) \<in> (parent_links tree_ABCD)\<^sup>*}) \<and>
   CollectTree 1 (BuildChildren tree_ABCD) [] = Some [1, 2, 4, 3] \<and>
   CollectTree 2 (BuildChildren tree_ABCD) [] = Some [2, 4]"
proof -
  have d: "distinct (map pid tree_ABCD)"
    by (simp add: tree_ABCD_def proc_def)
  show ?thesis
    using CollectTree_depth_first [OF d acyclic_tree_ABCD, of 1] d acyclic_tree_ABCD
      CollectTree_tree_ABCD [of "[]"]
    by simp
qed

section \<open>Claims about the return of the subtree collection\<close>

lemma for_each_Some_each:
  "for_each body xs s = Some s' \<Longrightarrow> x \<in> set xs \<Longrightarrow> \<exists>a b. body x a = Some b"
proof (induction xs arbitrary: s)
  case Nil
  then show ?case by simp
next
  case (Cons y ys)
  from Cons.prems(1) obtain s1 where s1: "body y s = Some s1" and r: "for_each body ys s1 = Some s'"
    by (auto simp: bind_eq_Some_conv)
  show ?case
  proof (cases "x = y")
    case True
    with s1 show ?thesis by blast
  next
    case False
    with Cons.prems(2) have "x \<in> set ys" by simp
    from Cons.IH [OF r this] show ?thesis .
  qed
qed

lemma child_links_BuildChildren: "child_links (BuildChildren v) = parent_links v"
proof -
  have "(\<exists>cs. BuildChildren v p = Some cs \<and> c \<in> set cs) \<longleftrightarrow> c \<in> set (children_of v p)" for c p
    by (auto simp: BuildChildren_lookup)
  then show ?thesis
    by (auto simp: child_links_def set_children_of)
qed

lemma CollectTree_Some_no_cycle:
  assumes "CollectTree p ch out = Some ys"
  shows "\<forall>q. (q, p) \<in> (child_links ch)\<^sup>* \<longrightarrow> (q, q) \<notin> (child_links ch)\<^sup>+"
proof (rule CollectTree.raw_induct
    [where P = "\<lambda>p ch out ys. \<forall>q. (q, p) \<in> (child_links ch)\<^sup>* \<longrightarrow> (q, q) \<notin> (child_links ch)\<^sup>+",
      OF _ assms])
  fix CT :: "DWORD \<Rightarrow> (DWORD \<rightharpoonup> DWORD list) \<Rightarrow> DWORD list \<Rightarrow> DWORD list option"
  fix r c acc res
  assume IH: "\<And>r c acc res. CT r c acc = Some res \<Longrightarrow>
      \<forall>q. (q, r) \<in> (child_links c)\<^sup>* \<longrightarrow> (q, q) \<notin> (child_links c)\<^sup>+"
    and eq: "(case c r of None \<Rightarrow> Some (acc @ [r])
              | Some cs \<Rightarrow> for_each (\<lambda>k. CT k c) cs (acc @ [r])) = Some res"
  let ?R = "child_links c"
  have child: "(q, q) \<notin> ?R\<^sup>+" if "(k, r) \<in> ?R" and "(q, k) \<in> ?R\<^sup>*" for k q
  proof -
    from that(1) obtain cs where cs: "c r = Some cs" "k \<in> set cs"
      by (auto simp: child_links_def)
    with eq have "for_each (\<lambda>k. CT k c) cs (acc @ [r]) = Some res" by simp
    from for_each_Some_each [OF this cs(2)] obtain a b where "CT k c a = Some b" by blast
    from IH [OF this] that(2) show ?thesis by blast
  qed
  show "\<forall>q. (q, r) \<in> ?R\<^sup>* \<longrightarrow> (q, q) \<notin> ?R\<^sup>+"
  proof (intro allI impI notI)
    fix q assume reach: "(q, r) \<in> ?R\<^sup>*" and cyc: "(q, q) \<in> ?R\<^sup>+"
    show False
    proof (cases "q = r")
      case False
      with reach obtain k where "(q, k) \<in> ?R\<^sup>*" "(k, r) \<in> ?R"
        by (auto elim: rtranclE)
      with child cyc show False by blast
    next
      case True
      with cyc obtain k where k: "(r, k) \<in> ?R\<^sup>*" "(k, r) \<in> ?R"
        by (auto dest: tranclD2)
      then have "(k, k) \<in> ?R\<^sup>+" by (auto intro: rtrancl_into_trancl2)
      moreover have "(k, k) \<in> ?R\<^sup>*" by simp
      ultimately show False using child [OF k(2)] by blast
    qed
  qed
qed

lemma CollectTree_returns_reachable:
  assumes nc: "\<forall>q. (q, root) \<in> (parent_links v)\<^sup>* \<longrightarrow> (q, q) \<notin> (parent_links v)\<^sup>+"
  shows "\<exists>ys. CollectTree root (BuildChildren v) out = Some ys"
proof -
  let ?R = "parent_links v"
  define R' where "R' = {(c, p). (c, p) \<in> ?R \<and> (p, root) \<in> ?R\<^sup>*}"
  have sub: "R' \<subseteq> ?R" by (auto simp: R'_def)
  then have "finite R'" using finite_parent_links by (rule finite_subset)
  moreover have "acyclic R'"
  proof (rule acyclicI, intro allI notI)
    fix x assume x: "(x, x) \<in> R'\<^sup>+"
    then have "(x, x) \<in> ?R\<^sup>+" using sub trancl_mono by blast
    moreover from x obtain z where "(x, z) \<in> R'" by (auto dest: tranclD)
    then have "(x, root) \<in> ?R\<^sup>*" by (auto simp: R'_def intro: converse_rtrancl_into_rtrancl)
    ultimately show False using nc by blast
  qed
  ultimately have "wf R'" by (rule finite_acyclic_wf)
  then have "(p, root) \<in> ?R\<^sup>* \<longrightarrow> (\<forall>out. \<exists>ys. CollectTree p (BuildChildren v) out = Some ys)" for p
  proof (induction p rule: wf_induct_rule)
    case (less p)
    show ?case
    proof (intro impI allI)
      fix out assume reach: "(p, root) \<in> ?R\<^sup>*"
      show "\<exists>ys. CollectTree p (BuildChildren v) out = Some ys"
      proof (cases "children_of v p = []")
        case True
        then show ?thesis
          by (subst CollectTree.simps) (simp add: BuildChildren_lookup)
      next
        case False
        have "\<exists>s'. for_each (\<lambda>c acc. CollectTree c (BuildChildren v) acc) (children_of v p) (out @ [p]) = Some s'"
        proof (rule for_each_Some)
          fix c s assume "c \<in> set (children_of v p)"
          then have cp: "(c, p) \<in> ?R" by (simp add: set_children_of)
          with reach have "(c, p) \<in> R'" and "(c, root) \<in> ?R\<^sup>*"
            by (auto simp: R'_def intro: converse_rtrancl_into_rtrancl)
          with less.IH show "\<exists>s'. CollectTree c (BuildChildren v) s = Some s'" by blast
        qed
        with False show ?thesis
          by (subst CollectTree.simps) (simp add: BuildChildren_lookup)
      qed
    qed
  qed
  then show ?thesis by blast
qed

text \<open>
  Claim C1, as amended. \<^verbatim>\<open>CollectTree\<close> keeps no visited set. On the index built from
  a snapshot it returns, for every root and every content of \<^verbatim>\<open>out\<close> on entry, exactly
  when no pid that reaches the root along parent links (the pairs of a pid and its
  parent pid) lies on a cycle of parent links.
\<close>

theorem CollectTree_returns_iff_no_reachable_cycle:
  "(\<exists>ys. CollectTree root (BuildChildren v) out = Some ys) \<longleftrightarrow>
     (\<forall>q. (q, root) \<in> (parent_links v)\<^sup>* \<longrightarrow> (q, q) \<notin> (parent_links v)\<^sup>+)"
proof
  assume "\<exists>ys. CollectTree root (BuildChildren v) out = Some ys"
  then obtain ys where "CollectTree root (BuildChildren v) out = Some ys" ..
  from CollectTree_Some_no_cycle [OF this]
  show "\<forall>q. (q, root) \<in> (parent_links v)\<^sup>* \<longrightarrow> (q, q) \<notin> (parent_links v)\<^sup>+"
    by (simp only: child_links_BuildChildren)
next
  assume "\<forall>q. (q, root) \<in> (parent_links v)\<^sup>* \<longrightarrow> (q, q) \<notin> (parent_links v)\<^sup>+"
  then show "\<exists>ys. CollectTree root (BuildChildren v) out = Some ys"
    by (rule CollectTree_returns_reachable)
qed

lemma acyclic_no_reachable_cycle:
  "acyclic r \<Longrightarrow> \<forall>q. (q, root) \<in> r\<^sup>* \<longrightarrow> (q, q) \<notin> r\<^sup>+"
  by (simp add: acyclic_def)

text \<open>
  Claim C1, witness: the snapshot A \<rightarrow> [B, C], B \<rightarrow> [D] (pids 1 to 4) has no cycle at
  all, and \<^verbatim>\<open>CollectTree\<close> returns from A.
\<close>

theorem CollectTree_returns_iff_no_reachable_cycle_witness:
  "acyclic (parent_links tree_ABCD) \<and>
   (\<exists>ys. CollectTree 1 (BuildChildren tree_ABCD) [] = Some ys)"
  using CollectTree_returns_iff_no_reachable_cycle [of 1 tree_ABCD "[]"]
    acyclic_no_reachable_cycle [OF acyclic_tree_ABCD, of 1] acyclic_tree_ABCD
  by blast

text \<open>
  Claim C1, counterexample. The snapshot holds one process, pid 0 with parent pid 0 (as
  the idle process reports itself); its index has the bucket \<open>0 \<mapsto> [0]\<close>, and
  \<^verbatim>\<open>CollectTree(0, ...)\<close> does not return.
\<close>

theorem CollectTree_self_parent_diverges:
  "CollectTree 0 (BuildChildren idle_only) [] = None"
proof (cases "CollectTree 0 (BuildChildren idle_only) []")
  case None
  then show ?thesis .
next
  case (Some ys)
  have "BuildChildren idle_only 0 = Some [0]"
    by (simp add: BuildChildren_def idle_only_def proc_def)
  with CollectTree_self_loop [OF Some] show ?thesis by simp
qed

subsection \<open>Roots without a bucket\<close>

lemma BuildChildren_no_bucket:
  "root \<notin> ppid ` set v \<Longrightarrow> BuildChildren v root = None"
proof -
  assume "root \<notin> ppid ` set v"
  then have "children_of v root = []"
    by (auto simp: children_of_def filter_empty_conv)
  then show ?thesis by (simp add: BuildChildren_lookup)
qed

text \<open>
  Claim C10. A root with no bucket in the index, as is every pid that the snapshot does
  not name as a parent, gives the one-element result; and whenever \<^verbatim>\<open>CollectTree\<close>
  returns, the first pid it has pushed is the root: \<^verbatim>\<open>out\<close> on return is \<^verbatim>\<open>out\<close> on
  entry, then the root, then the rest.
\<close>

theorem CollectTree_root_without_bucket:
  "(root \<notin> ppid ` set v \<longrightarrow> CollectTree root (BuildChildren v) [] = Some [root]) \<and>
   (ch root = None \<longrightarrow> CollectTree root ch out = Some (out @ [root])) \<and>
   (CollectTree root ch out = Some ys \<longrightarrow> (\<exists>rest. ys = out @ root # rest))"
  using BuildChildren_no_bucket [of root v] CollectTree_no_bucket [of "BuildChildren v" root "[]"]
    CollectTree_no_bucket [of ch root out] CollectTree_emits_root_first [of root ch out ys]
  by auto

text \<open>
  Claim C10, witness: pid 9 occurs nowhere in the snapshot A \<rightarrow> [B, C], B \<rightarrow> [D], and
  its subtree is 9 alone; the subtree of A starts with A.
\<close>

theorem CollectTree_root_without_bucket_witness:
  "9 \<notin> ppid ` set tree_ABCD \<and> 9 \<notin> pid ` set tree_ABCD \<and>
   CollectTree 9 (BuildChildren tree_ABCD) [] = Some [9] \<and>
   BuildChildren tree_ABCD 9 = None \<and>
   CollectTree 9 (BuildChildren tree_ABCD) [7] = Some ([7] @ [9]) \<and>
   CollectTree 1 (BuildChildren tree_ABCD) [] = Some [1, 2, 4, 3] \<and>
   (\<exists>rest. [1, 2, 4, 3] = [] @ (1 :: DWORD) # rest)"
proof -
  have a: "9 \<notin> ppid ` set tree_ABCD" and b: "9 \<notin> pid ` set tree_ABCD"
    by (simp_all add: tree_ABCD_def proc_def)
  have c: "BuildChildren tree_ABCD 9 = None"
    by (simp add: BuildChildren_tree_ABCD)
  have d: "CollectTree 1 (BuildChildren tree_ABCD) [] = Some [1, 2, 4, 3]"
    using CollectTree_tree_ABCD(1) [of "[]"] by simp
  from CollectTree_root_without_bucket [of 9 tree_ABCD "BuildChildren tree_ABCD" "[7]"] a c
  have "CollectTree 9 (BuildChildren tree_ABCD) [] = Some [9]"
    and "CollectTree 9 (BuildChildren tree_ABCD) [7] = Some ([7] @ [9])" by simp_all
  moreover from CollectTree_root_without_bucket [of 1 tree_ABCD "BuildChildren tree_ABCD" "[]" "[1, 2, 4, 3]"] d
  have "\<exists>rest. [1, 2, 4, 3] = [] @ (1 :: DWORD) # rest" by simp
  ultimately show ?thesis using a b c d by blast
qed

section \<open>Claims about the action engine\<close>

lemma env_deny_simps:
  "open_process (env_deny d) tr access p \<longleftrightarrow> p \<noteq> d"
  "terminate_process (env_deny d) tr p"
  "query_image_name (env_deny d) tr p = Some [0x43, 0x3A]"
  "process_memory (env_deny d) tr p = Some 4096"
  "ntdll (env_deny d) = None"
  by (simp_all add: env_deny_def)

lemma victims_of_Some:
  "victims_of g tree pids = Some victims \<Longrightarrow> \<exists>v0. victims = remdups_adj (sort v0)"
  by (auto simp: victims_of_def)

lemma ActOnSelection_run:
  assumes "pids \<noteq> []" and "victims_of g tree pids = Some victims"
  shows "\<exists>k ev. k \<le> length victims \<and>
     ActOnSelection env ptrs g action pids tree tr =
       Some (ActionResult (of_nat k) (of_nat (length victims - k)), tr @ ev) \<and>
     opened_pids ev = (if reaches_os ptrs action then rev victims else [])"
proof -
  from act_loop_result [of "rev victims" env ptrs action 0 0 tr] obtain k ev where
    "k \<le> length (rev victims)"
    "act_loop env ptrs action (rev victims) (0, 0, tr) =
       (0 + of_nat k, 0 + of_nat (length (rev victims) - k), tr @ ev)"
    "opened_pids ev = (if reaches_os ptrs action then rev victims else [])" by blast
  then have "k \<le> length victims \<and>
     ActOnSelection env ptrs g action pids tree tr =
       Some (ActionResult (of_nat k) (of_nat (length victims - k)), tr @ ev) \<and>
     opened_pids ev = (if reaches_os ptrs action then rev victims else [])"
    using assms by (simp add: ActOnSelection_def)
  then show ?thesis by blast
qed

text \<open>
  Claim C3. The vector \<^verbatim>\<open>victims\<close> after \<^verbatim>\<open>std::sort\<close> and \<^verbatim>\<open>std::unique\<close> holds
  no pid twice, with or without the Tree box, and in a run of \<^verbatim>\<open>ActOnSelection\<close> no
  pid is opened twice.
\<close>

theorem victims_no_duplicates:
  "(victims_of g tree pids = Some victims \<longrightarrow> distinct victims) \<and>
   (ActOnSelection env ptrs g action pids tree tr = Some (m, tr') \<longrightarrow>
      distinct (opened_pids (drop (length tr) tr')))"
proof (intro conjI impI)
  assume "victims_of g tree pids = Some victims"
  then show "distinct victims"
    using victims_of_Some victims_distinct by blast
next
  assume a: "ActOnSelection env ptrs g action pids tree tr = Some (m, tr')"
  show "distinct (opened_pids (drop (length tr) tr'))"
  proof (cases "pids = []")
    case True
    with a show ?thesis by (simp add: ActOnSelection_def)
  next
    case False
    with a obtain victims where v: "victims_of g tree pids = Some victims"
      by (auto simp: ActOnSelection_def split: option.splits)
    then have "distinct victims"
      using victims_of_Some victims_distinct by blast
    with ActOnSelection_run [OF False v, of env ptrs action tr] a show ?thesis
      by auto
  qed
qed

text \<open>
  Claim C3, witness: rows A and B selected with the Tree box checked; the subtrees
  A, B, D, C and B, D overlap, and the victims are 1, 2, 3, 4, each opened once.
\<close>

theorem victims_no_duplicates_witness:
  "victims_of (state_of tree_ABCD) True [1, 2] = Some [1, 2, 3, 4] \<and> distinct [1, 2, 3, 4 :: DWORD] \<and>
   ActOnSelection (env_deny 9) nt_pointers_init (state_of tree_ABCD) 1 [1, 2] True [] =
     Some (ActionResult 4 0,
       [OpenProcess 1 4, TerminateProcess (ProcessHandle 4) 1, CloseHandle (ProcessHandle 4),
        OpenProcess 1 3, TerminateProcess (ProcessHandle 3) 1, CloseHandle (ProcessHandle 3),
        OpenProcess 1 2, TerminateProcess (ProcessHandle 2) 1, CloseHandle (ProcessHandle 2),
        OpenProcess 1 1, TerminateProcess (ProcessHandle 1) 1, CloseHandle (ProcessHandle 1)]) \<and>
   distinct (opened_pids (drop (length ([] :: syscall list))
       [OpenProcess 1 4, TerminateProcess (ProcessHandle 4) 1, CloseHandle (ProcessHandle 4),
        OpenProcess 1 3, TerminateProcess (ProcessHandle 3) 1, CloseHandle (ProcessHandle 3),
        OpenProcess 1 2, TerminateProcess (ProcessHandle 2) 1, CloseHandle (ProcessHandle 2),
        OpenProcess 1 1, TerminateProcess (ProcessHandle 1) 1, CloseHandle (ProcessHandle 1)]))"
proof -
  have v: "victims_of (state_of tree_ABCD) True [1, 2] = Some [1, 2, 3, 4]"
    by (simp add: victims_of_def collect_victims_def CurrentChildren_def state_of_def
        CollectTree_tree_ABCD)
  have a: "ActOnSelection (env_deny 9) nt_pointers_init (state_of tree_ABCD) 1 [1, 2] True [] =
     Some (ActionResult 4 0,
       [OpenProcess 1 4, TerminateProcess (ProcessHandle 4) 1, CloseHandle (ProcessHandle 4),
        OpenProcess 1 3, TerminateProcess (ProcessHandle 3) 1, CloseHandle (ProcessHandle 3),
        OpenProcess 1 2, TerminateProcess (ProcessHandle 2) 1, CloseHandle (ProcessHandle 2),
        OpenProcess 1 1, TerminateProcess (ProcessHandle 1) 1, CloseHandle (ProcessHandle 1)])"
    by (simp add: ActOnSelection_def v act_on_def TerminatePid_def env_deny_simps
        PROCESS_TERMINATE_def Let_def)
  from victims_no_duplicates [of "state_of tree_ABCD" True "[1, 2]" "[1, 2, 3, 4]"
      "env_deny 9" nt_pointers_init 1 "[]"] v a
  show ?thesis by simp
qed

lemma victims_of_direct:
  "victims_of g False pids = Some (remdups_adj (sort pids))"
proof -
  have "for_each (\<lambda>p victims. Some (victims @ [p])) pids acc = Some (acc @ pids)" for acc :: "DWORD list"
    by (induction pids arbitrary: acc) simp_all
  then show ?thesis by (simp add: victims_of_def collect_victims_def)
qed

text \<open>
  Claim C5. With no row selected \<^verbatim>\<open>ActOnSelection\<close> shows the box "Select one or more
  rows first." and returns: the log of system calls is the one on entry, for every
  action, state of the Tree box and operating system.
\<close>

theorem ActOnSelection_empty_selection:
  "ActOnSelection env ptrs g action [] tree tr = Some (SelectRowsFirst, tr)"
  by (simp add: ActOnSelection_def)

text \<open>Claim C5, witness: Kill with nothing selected and the Tree box checked.\<close>

theorem ActOnSelection_empty_selection_witness:
  "ActOnSelection (env_deny 3) nt_pointers_init (state_of idle_only) 1 [] True [] =
     Some (SelectRowsFirst, [])"
  using ActOnSelection_empty_selection [of "env_deny 3" nt_pointers_init "state_of idle_only" 1 True "[]"]
  by simp

lemma LoadNtFunctions_no_ntdll:
  "ntdll env = None \<Longrightarrow> LoadNtFunctions env nt_pointers_init = nt_pointers_init"
  by (simp add: LoadNtFunctions_def)

lemma CollectTree_no_bucket_victims:
  "ch p = None \<Longrightarrow> collect_victims ch tree [p] = Some [p]"
  by (simp add: collect_victims_def CollectTree_no_bucket)

text \<open>
  Claim C6. When both function pointers are null, \<^verbatim>\<open>SuspendPid\<close> and \<^verbatim>\<open>ResumePid\<close>
  return \<^verbatim>\<open>false\<close> and leave the log of system calls as it was, and Suspend on one
  selected pid (Tree box unchecked, or checked on a pid with no bucket in the index)
  shows OK=0 FAIL=1 with the log unchanged: no call at all, so no
  \<^verbatim>\<open>TerminateProcess\<close>.
\<close>

theorem capability_unresolved_fails_silently:
  assumes "pNtSuspendProcess ptrs = None" and "pNtResumeProcess ptrs = None"
  shows "SuspendPid env ptrs p tr = (False, tr) \<and>
     ResumePid env ptrs p tr = (False, tr) \<and>
     ActOnSelection env ptrs g 2 [p] False tr = Some (ActionResult 0 1, tr) \<and>
     (BuildChildren (all g) p = None \<longrightarrow>
        ActOnSelection env ptrs g 2 [p] True tr = Some (ActionResult 0 1, tr))"
proof -
  have direct: "victims_of g False [p] = Some [p]"
    by (simp add: victims_of_direct)
  have subtree: "victims_of g True [p] = Some [p]" if "BuildChildren (all g) p = None"
    using that by (simp add: victims_of_def CurrentChildren_def CollectTree_no_bucket_victims)
  have s: "SuspendPid env ptrs p tr = (False, tr)"
    using assms(1) by (simp add: SuspendPid_def)
  have r: "ResumePid env ptrs p tr = (False, tr)"
    using assms(2) by (simp add: ResumePid_def)
  have "ActOnSelection env ptrs g 2 [p] tree tr = Some (ActionResult 0 1, tr)"
    if "victims_of g tree [p] = Some [p]" for tree
    using that s by (simp add: ActOnSelection_def act_on_def)
  with direct subtree s r show ?thesis by blast
qed

text \<open>
  Claim C6, witness: the pointers as \<^verbatim>\<open>LoadNtFunctions\<close> leaves them on a system
  where \<^verbatim>\<open>GetModuleHandleW\<close> finds no \<^verbatim>\<open>ntdll.dll\<close>; pid 4 has no child in the
  snapshot.
\<close>

theorem capability_unresolved_fails_silently_witness:
  "pNtSuspendProcess (LoadNtFunctions (env_deny 3) nt_pointers_init) = None \<and>
   pNtResumeProcess (LoadNtFunctions (env_deny 3) nt_pointers_init) = None \<and>
   BuildChildren (all (state_of tree_ABCD)) 4 = None \<and>
   SuspendPid (env_deny 3) (LoadNtFunctions (env_deny 3) nt_pointers_init) 4 [] = (False, []) \<and>
   ResumePid (env_deny 3) (LoadNtFunctions (env_deny 3) nt_pointers_init) 4 [] = (False, []) \<and>
   ActOnSelection (env_deny 3) (LoadNtFunctions (env_deny 3) nt_pointers_init)
     (state_of tree_ABCD) 2 [4] False [] = Some (ActionResult 0 1, []) \<and>
   ActOnSelection (env_deny 3) (LoadNtFunctions (env_deny 3) nt_pointers_init)
     (state_of tree_ABCD) 2 [4] True [] = Some (ActionResult 0 1, [])"
proof -
  have p: "LoadNtFunctions (env_deny 3) nt_pointers_init = nt_pointers_init"
    by (simp add: LoadNtFunctions_no_ntdll env_deny_simps)
  have s: "pNtSuspendProcess (LoadNtFunctions (env_deny 3) nt_pointers_init) = None"
    and r: "pNtResumeProcess (LoadNtFunctions (env_deny 3) nt_pointers_init) = None"
    unfolding p by (simp_all add: nt_pointers_init_def)
  have b: "BuildChildren (all (state_of tree_ABCD)) 4 = None"
    by (simp add: state_of_def BuildChildren_tree_ABCD)
  from capability_unresolved_fails_silently [OF s r, of "env_deny 3" 4 "[]" "state_of tree_ABCD"]
    s r b
  show ?thesis by simp
qed

section \<open>Claims about the action loop\<close>





















section \<open>Claims about the filter and the snapshot\<close>

text \<open>
  Claim C7. With the empty search text \<^verbatim>\<open>ApplyFilter\<close> copies \<^verbatim>\<open>g.all\<close>; with any
  other it keeps, in the order of \<^verbatim>\<open>g.all\<close>, exactly the records in whose name or
  path the text occurs after both are lower-cased; filtering the result again with the
  same text changes nothing. This holds for every \<^verbatim>\<open>towlower\<close>.
\<close>

theorem ApplyFilter_case_insensitive_substring:
  "filtered (ApplyFilter towlower (g\<lparr>filter_s := []\<rparr>)) = all g \<and>
   (filter_s g \<noteq> [] \<longrightarrow>
      filtered (ApplyFilter towlower g) =
        filter (\<lambda>p. ci_substring_spec towlower (filter_s g) (name p) \<or>
                   ci_substring_spec towlower (filter_s g) (path p)) (all g)) \<and>
   filtered (ApplyFilter towlower (g\<lparr>all := filtered (ApplyFilter towlower g)\<rparr>)) =
     filtered (ApplyFilter towlower g)"
proof (intro conjI impI)
  show "filtered (ApplyFilter towlower (g\<lparr>filter_s := []\<rparr>)) = all g"
    by (simp add: ApplyFilter_def)
  show "filtered (ApplyFilter towlower g) =
        filter (\<lambda>p. ci_substring_spec towlower (filter_s g) (name p) \<or>
                   ci_substring_spec towlower (filter_s g) (path p)) (all g)"
    by (rule ApplyFilter_filtered)
  show "filtered (ApplyFilter towlower (g\<lparr>all := filtered (ApplyFilter towlower g)\<rparr>)) =
     filtered (ApplyFilter towlower g)"
    by (simp add: ApplyFilter_filtered)
qed

text \<open>
  Claim C7, witness: "aB" matches the name "Ab" and the path "XaB" under the ASCII
  \<^verbatim>\<open>towlower\<close>, not the name "z"; records 1 and 2 are kept in that order.
\<close>

theorem ApplyFilter_case_insensitive_substring_witness:
  "filter_s filter_demo \<noteq> [] \<and>
   filtered (ApplyFilter towlower_ascii (filter_demo\<lparr>filter_s := []\<rparr>)) = all filter_demo \<and>
   filtered (ApplyFilter towlower_ascii filter_demo) =
     filter (\<lambda>p. ci_substring_spec towlower_ascii (filter_s filter_demo) (name p) \<or>
                ci_substring_spec towlower_ascii (filter_s filter_demo) (path p)) (all filter_demo) \<and>
   filtered (ApplyFilter towlower_ascii
       (filter_demo\<lparr>all := filtered (ApplyFilter towlower_ascii filter_demo)\<rparr>)) =
     filtered (ApplyFilter towlower_ascii filter_demo) \<and>
   filtered (ApplyFilter towlower_ascii filter_demo) =
     [named 1 [0x41, 0x62] [], named 2 [0x63] [0x58, 0x61, 0x42]]"
proof -
  have n: "filter_s filter_demo \<noteq> []"
    by (simp add: filter_demo_def)
  have e: "filtered (ApplyFilter towlower_ascii filter_demo) =
     [named 1 [0x41, 0x62] [], named 2 [0x63] [0x58, 0x61, 0x42]]"
    by (simp add: ApplyFilter_def filter_demo_def IContains_def wstring_find_def ToLower_def
        towlower_ascii_def named_def)
  from ApplyFilter_case_insensitive_substring [of towlower_ascii filter_demo] n e
  show ?thesis by blast
qed

text \<open>
  Claim C8. When the enumeration succeeds, \<^verbatim>\<open>Snapshot\<close> returns one record for each
  entry, in the order of the entries, with the pid, the parent pid and the name of the
  entry. A record whose process cannot be opened has the empty path and \<^verbatim>\<open>rss\<close> 0; a
  record whose path query fails has the empty path, and one whose memory query fails
  has \<^verbatim>\<open>rss\<close> 0. \<^verbatim>\<open>Snapshot\<close> is a total function: it has no failing branch.
\<close>

theorem Snapshot_enrichment_degrades:
  assumes "toolhelp_snapshot env tr = Some entries"
  shows "list_all2
     (\<lambda>pe p.
        pid p = th32ProcessID pe \<and> ppid p = th32ParentProcessID pe \<and> name p = szExeFile pe \<and>
        ((\<forall>h. \<not> open_process env h (PROCESS_QUERY_INFORMATION OR PROCESS_VM_READ)
                 (th32ProcessID pe))
           \<longrightarrow> path p = [] \<and> rss p = 0) \<and>
        ((\<forall>h. query_image_name env h (th32ProcessID pe) = None) \<longrightarrow> path p = []) \<and>
        ((\<forall>h. process_memory env h (th32ProcessID pe) = None) \<longrightarrow> rss p = 0))
     entries (fst (Snapshot env tr))"
  using Snapshot_entries [OF assms] by (rule list_all2_mono) (simp add: degraded_def)

text \<open>
  Claim C8, witness: three entries, pids 0, 4 and 8, on a system that refuses to open
  pid 4. The record of pid 4 is there, between the other two, with the empty path and
  \<^verbatim>\<open>rss\<close> 0; pid 0 is not opened; pid 8 has its path and working set.
\<close>

theorem Snapshot_enrichment_degrades_witness:
  "toolhelp_snapshot (env_deny 4) [] = Some
     [\<lparr>th32ProcessID = 0, th32ParentProcessID = 0, szExeFile = [0x49]\<rparr>,
      \<lparr>th32ProcessID = 4, th32ParentProcessID = 0, szExeFile = [0x53]\<rparr>,
      \<lparr>th32ProcessID = 8, th32ParentProcessID = 4, szExeFile = [0x41]\<rparr>] \<and>
   (\<forall>h. \<not> open_process (env_deny 4) h (PROCESS_QUERY_INFORMATION OR PROCESS_VM_READ) 4) \<and>
   list_all2
     (\<lambda>pe p.
        pid p = th32ProcessID pe \<and> ppid p = th32ParentProcessID pe \<and> name p = szExeFile pe \<and>
        ((\<forall>h. \<not> open_process (env_deny 4) h (PROCESS_QUERY_INFORMATION OR PROCESS_VM_READ)
                 (th32ProcessID pe))
           \<longrightarrow> path p = [] \<and> rss p = 0) \<and>
        ((\<forall>h. query_image_name (env_deny 4) h (th32ProcessID pe) = None) \<longrightarrow> path p = []) \<and>
        ((\<forall>h. process_memory (env_deny 4) h (th32ProcessID pe) = None) \<longrightarrow> rss p = 0))
     [\<lparr>th32ProcessID = 0, th32ParentProcessID = 0, szExeFile = [0x49]\<rparr>,
      \<lparr>th32ProcessID = 4, th32ParentProcessID = 0, szExeFile = [0x53]\<rparr>,
      \<lparr>th32ProcessID = 8, th32ParentProcessID = 4, szExeFile = [0x41]\<rparr>]
     (fst (Snapshot (env_deny 4) [])) \<and>
   fst (Snapshot (env_deny 4) []) =
     [\<lparr>pid = 0, ppid = 0, name = [0x49], path = [], rss = 0\<rparr>,
      \<lparr>pid = 4, ppid = 0, name = [0x53], path = [], rss = 0\<rparr>,
      \<lparr>pid = 8, ppid = 4, name = [0x41], path = [0x43, 0x3A], rss = 4096\<rparr>]"
proof -
  have t: "toolhelp_snapshot (env_deny 4) [] = Some
     [\<lparr>th32ProcessID = 0, th32ParentProcessID = 0, szExeFile = [0x49]\<rparr>,
      \<lparr>th32ProcessID = 4, th32ParentProcessID = 0, szExeFile = [0x53]\<rparr>,
      \<lparr>th32ProcessID = 8, th32ParentProcessID = 4, szExeFile = [0x41]\<rparr>]"
    by (simp add: env_deny_def)
  have s: "fst (Snapshot (env_deny 4) []) =
     [\<lparr>pid = 0, ppid = 0, name = [0x49], path = [], rss = 0\<rparr>,
      \<lparr>pid = 4, ppid = 0, name = [0x53], path = [], rss = 0\<rparr>,
      \<lparr>pid = 8, ppid = 4, name = [0x41], path = [0x43, 0x3A], rss = 4096\<rparr>]"
    by (simp add: Snapshot_def t proc_of_entry_def enrich_def env_deny_simps Let_def)
  have d: "\<forall>h. \<not> open_process (env_deny 4) h (PROCESS_QUERY_INFORMATION OR PROCESS_VM_READ) 4"
    by (simp add: env_deny_simps)
  from Snapshot_enrichment_degrades [OF t] t s d
  show ?thesis by blast
qed

end
